theory Spec2Isabelle
  imports Main "HOL-Library.Word"
begin

section \<open>Faults\<close>

text \<open>
  The Go code reports a failed read through an \<open>error\<close> return value and a
  programming fault (an index past the end of a slice, a slice bound past
  the end, a bad \<open>make\<close>) through a run-time panic. Both abort the parse:
  every combinator returns \<open>nil, err\<close> at once when a sub-matcher returns an
  error, and nothing in the packages recovers a panic. A matcher therefore
  yields \<open>Inl\<close> of a fault, or \<open>Inr\<close> of its \<open>*Match\<close> (\<open>None\<close> is the nil
  pointer, the no-match outcome) and the store it leaves behind.
\<close>

datatype error = EOF | ErrBufferFull

datatype fault = Error error | PanicIndex | PanicSlice | PanicMakeSlice

type_synonym byte = "8 word"

type_synonym rune = int

section \<open>token.Tag and parser.Match (token package, parser/match.go)\<close>

type_synonym Tag = int

definition token_None :: Tag where
  "token_None = 0"

definition token_Literal :: Tag where
  "token_Literal = 1"

definition token_Last :: Tag where
  "token_Last = 2"

text \<open>
  \<open>Match\<close>: the tag, the content, the named submatches (a Go map, here an
  association list; a nil map and an empty map are both \<open>[]\<close>) and the list
  of submatches. The \<open>Made\<close> slot is never written by the code modelled here
  and is left out. A \<open>*Match\<close> is a \<open>match option\<close>.
\<close>

datatype match = Match (Tag: Tag) (Content: "byte list")
  (Group: "(string \<times> match) list") (Submatch: "match list")

text \<open>\<open>func (m *Match) Length() int\<close>: the receiver may be the nil pointer.\<close>

definition Length :: "match option \<Rightarrow> nat" where
  "Length m = (case m of Some x \<Rightarrow> length (Content x) | None \<Rightarrow> 0)"

section \<open>The buffered source (bufio.Reader as used by parser.Buffer)\<close>

text \<open>
  \<open>Buffer\<close> wraps a \<open>bufio.Reader\<close> over the byte source. The standard
  library is not part of the repository; it is modelled by its documented
  behaviour on a source that delivers a finite sequence of bytes and then
  \<open>io.EOF\<close>: \<open>buf_data\<close> is everything not yet discarded (buffered or
  still in the source), \<open>buf_size\<close> the capacity of the internal buffer.
  \<open>Peek n\<close> returns the next \<open>n\<close> bytes without consuming them; with fewer
  than \<open>n\<close> bytes left it returns what there is and \<open>io.EOF\<close>; with \<open>n\<close>
  above the capacity it returns what fits and \<open>ErrBufferFull\<close>.
  \<open>Discard n\<close> skips \<open>n\<close> bytes. Offsets and lengths are never negative in
  the code modelled and are natural numbers. The \<open>sync.Mutex\<close> of \<open>Buffer\<close>
  plays no part in a sequential run and is left out.
\<close>

record Buffer =
  buf_data :: "byte list"
  buf_size :: nat

definition Peek :: "Buffer \<Rightarrow> nat \<Rightarrow> byte list \<times> error option" where
  "Peek b k =
     (if buf_size b < k then (take (buf_size b) (buf_data b), Some ErrBufferFull)
      else if length (buf_data b) < k then (buf_data b, Some EOF)
      else (take k (buf_data b), None))"

definition NewBuffer :: "byte list \<Rightarrow> Buffer" where
  "NewBuffer src = \<lparr>buf_data = src, buf_size = 4096\<rparr>"

text \<open>Go's \<open>copy(dst, src)\<close>: the first \<open>min (len dst) (len src)\<close> elements.\<close>

definition copy :: "'a list \<Rightarrow> 'a list \<Rightarrow> 'a list" where
  "copy dst src = take (length dst) src @ drop (length src) dst"

text \<open>
  \<open>Buffer.peek(off, p)\<close> returns the slice \<open>p\<close> as written, the count and
  the error. After a \<open>Peek\<close> without error \<open>pbs\<close> has \<open>off + len(p)\<close> bytes,
  so \<open>pbs[off:]\<close> is in range.
\<close>

definition peek :: "Buffer \<Rightarrow> nat \<Rightarrow> byte list \<Rightarrow> byte list \<times> nat \<times> error option" where
  "peek b off p =
     (if length p = 0 then (p, 0, None)
      else (case Peek b (off + length p) of
              (pbs, Some err) \<Rightarrow> (p, 0, Some err)
            | (pbs, None) \<Rightarrow> (copy p (drop off pbs), length (drop off pbs), None)))"

definition discard :: "Buffer \<Rightarrow> nat \<Rightarrow> Buffer" where
  "discard b k = b\<lparr>buf_data := drop k (buf_data b)\<rparr>"

section \<open>Reader (the read offset of one Input)\<close>

text \<open>
  A \<open>Reader\<close> is a pointer to the shared \<open>Buffer\<close> and an offset \<open>n\<close> into
  its window. The buffer is kept once per \<open>Input\<close> tree (below), so the
  record holds the offset only.
\<close>

record Reader =
  r_n :: nat

definition Buffer_Reader :: Reader where
  "Buffer_Reader = \<lparr>r_n = 0\<rparr>"

definition Collect :: "Buffer \<Rightarrow> Reader \<Rightarrow> Buffer" where
  "Collect b rd = discard b (r_n rd)"

definition Clone :: "Reader \<Rightarrow> Reader" where
  "Clone rd = \<lparr>r_n = r_n rd\<rparr>"

definition Reset :: "Reader \<Rightarrow> Reader" where
  "Reset rd = rd\<lparr>r_n := 0\<rparr>"

text \<open>\<open>Reader.Read(p)\<close>: returns \<open>p\<close> as written, \<open>n\<close>, \<open>err\<close> and the reader.\<close>

definition Reader_Read ::
  "Buffer \<Rightarrow> Reader \<Rightarrow> byte list \<Rightarrow> (byte list \<times> nat \<times> error option) \<times> Reader" where
  "Reader_Read b rd p =
     (case peek b (r_n rd) p of
        (p', k, err) \<Rightarrow> ((p', k, err), rd\<lparr>r_n := r_n rd + k\<rparr>))"

section \<open>Input (parser/input.go; the same code is gordy.Parser in parser.go)\<close>

text \<open>
  An \<open>Input\<close> has a parent pointer, a pointer to the shared \<open>Buffer\<close> and
  its own \<open>Reader\<close>. What a matcher called on an \<open>Input\<close> can reach is that
  \<open>Input\<close>, its chain of ancestors and the buffer, so the state passed
  through a matcher is exactly that: the buffer, the reader of the current
  \<open>Input\<close> and the readers of its ancestors, nearest first. The root is the
  \<open>Input\<close> with no ancestors (\<open>parent == nil\<close>). The model covers trees built
  by \<open>New\<close>, where the \<open>Input\<close> and its \<open>Reader\<close> share one \<open>Buffer\<close>.
  Tracing only formats text and peeks; it changes nothing and is left out.
\<close>

record Input =
  in_buf :: Buffer
  in_r :: Reader
  in_parents :: "Reader list"

definition New :: "byte list \<Rightarrow> Input" where
  "New src = \<lparr>in_buf = NewBuffer src, in_r = Buffer_Reader, in_parents = []\<rparr>"

definition Input_Read :: "Input \<Rightarrow> byte list \<Rightarrow> (byte list \<times> nat \<times> error option) \<times> Input" where
  "Input_Read p bs =
     (case Reader_Read (in_buf p) (in_r p) bs of
        (res, rd) \<Rightarrow> (res, p\<lparr>in_r := rd\<rparr>))"

text \<open>
  \<open>child_of p rd\<close> is the fork of \<open>p\<close> whose reader is \<open>rd\<close>, and \<open>parent c\<close>
  is \<open>c.parent\<close>, both as they stand in the current store.
\<close>

definition child_of :: "Input \<Rightarrow> Reader \<Rightarrow> Input" where
  "child_of p rd = \<lparr>in_buf = in_buf p, in_r = rd, in_parents = in_r p # in_parents p\<rparr>"

definition parent :: "Input \<Rightarrow> Input" where
  "parent c =
     (case in_parents c of
        [] \<Rightarrow> c
      | q # qs \<Rightarrow> \<lparr>in_buf = in_buf c, in_r = q, in_parents = qs\<rparr>)"

definition MayFail :: "Input \<Rightarrow> Input" where
  "MayFail p = child_of p (Clone (in_r p))"

text \<open>
  \<open>Keep\<close>: on the root or on a child of the root the buffer drops the bytes
  before the reader of \<open>p\<close> and the root's reader is reset; deeper down the
  parent takes over the reader of \<open>p\<close>. The result is the \<open>Input\<close> returned.
\<close>

definition Keep :: "Input \<Rightarrow> Input" where
  "Keep p =
     (case in_parents p of
        [] \<Rightarrow> \<lparr>in_buf = Collect (in_buf p) (in_r p), in_r = Reset (in_r p), in_parents = []\<rparr>
      | [q] \<Rightarrow> \<lparr>in_buf = Collect (in_buf p) (in_r p), in_r = Reset q, in_parents = []\<rparr>
      | q # g # gs \<Rightarrow> \<lparr>in_buf = in_buf p, in_r = in_r p, in_parents = g # gs\<rparr>)"

definition Discard :: "Input \<Rightarrow> Input" where
  "Discard p = (if in_parents p \<noteq> [] then parent p else p)"

text \<open>The unread input an \<open>Input\<close> stands in front of.\<close>

definition rest :: "Input \<Rightarrow> byte list" where
  "rest p = drop (r_n (in_r p)) (buf_data (in_buf p))"

type_synonym Matcher = "Input \<Rightarrow> fault + (match option \<times> Input)"

section \<open>Byte predicates and the Bytes matcher (match/bytes.go)\<close>

primrec BytesInSet :: "byte list \<Rightarrow> byte \<Rightarrow> bool" where
  "BytesInSet [] b = False"
| "BytesInSet (c # cs) b = (if c = b then True else BytesInSet cs b)"

definition BytesInRange :: "byte \<Rightarrow> byte \<Rightarrow> byte \<Rightarrow> bool" where
  "BytesInRange cs ce b = (b \<ge> cs \<and> b \<le> ce)"

primrec any_pred :: "('a \<Rightarrow> bool) list \<Rightarrow> 'a \<Rightarrow> bool" where
  "any_pred [] b = False"
| "any_pred (pred # preds) b = (if pred b then True else any_pred preds b)"

fun AnyBytes :: "(byte \<Rightarrow> bool) list \<Rightarrow> byte \<Rightarrow> bool" where
  "AnyBytes [] = (\<lambda>b. False)"
| "AnyBytes [pred] = pred"
| "AnyBytes preds = (\<lambda>b. any_pred preds b)"

record Bytes =
  b_t :: Tag
  b_from :: int
  b_to :: int
  b_pred :: "byte \<Rightarrow> bool"

definition OneByte :: "Tag \<Rightarrow> (byte \<Rightarrow> bool) list \<Rightarrow> Bytes" where
  "OneByte t preds = \<lparr>b_t = t, b_from = 0, b_to = 0, b_pred = AnyBytes preds\<rparr>"

definition NBytes :: "Tag \<Rightarrow> int \<Rightarrow> int \<Rightarrow> (byte \<Rightarrow> bool) list \<Rightarrow> Bytes" where
  "NBytes t from to preds = \<lparr>b_t = t, b_from = from, b_to = to, b_pred = AnyBytes preds\<rparr>"

text \<open>\<open>Bytes.matchOne\<close>: the byte, \<open>ok\<close>, the error, and the \<open>Input\<close> after the read.\<close>

definition Bytes_matchOne :: "Bytes \<Rightarrow> Input \<Rightarrow> (byte \<times> bool \<times> error option) \<times> Input" where
  "Bytes_matchOne b p =
     (case Input_Read p [0] of
        ((bs, k, Some err), p') \<Rightarrow> ((0, False, Some err), p')
      | ((bs, k, None), p') \<Rightarrow>
          (if b_pred b (bs ! 0) then ((bs ! 0, True, None), p')
           else ((0, False, None), p')))"

text \<open>
  The first loop of \<open>Bytes.Match\<close>, \<open>for i := 0; i <= b.from; i++\<close>. The
  result is \<open>None\<close> for the \<open>return nil, nil\<close> inside the loop and \<open>Some bs\<close>
  when the loop runs to its end. \<open>bs[i] = c\<close> panics when \<open>i\<close> is not below
  \<open>len(bs)\<close>.
\<close>

function Bytes_lower :: "Bytes \<Rightarrow> int \<Rightarrow> byte list \<Rightarrow> Input \<Rightarrow> fault + (byte list option \<times> Input)" where
  "Bytes_lower b i bs p =
     (if i \<le> b_from b then
        (case Bytes_matchOne b p of
           ((c, ok, Some err), p') \<Rightarrow> Inl (Error err)
         | ((c, ok, None), p') \<Rightarrow>
             (if \<not> ok then Inr (None, p')
              else if nat i < length bs then Bytes_lower b (i + 1) (bs[nat i := c]) p'
              else Inl PanicIndex))
      else Inr (Some bs, p))"
  by pat_completeness auto
termination
  by (relation "measure (\<lambda>(b, i, bs, p). nat (b_from b + 1 - i))") auto

text \<open>The second loop, \<open>for i := b.from + 1; i <= b.to; i++\<close>, left by \<open>break\<close>.\<close>

function Bytes_upper :: "Bytes \<Rightarrow> int \<Rightarrow> byte list \<Rightarrow> Input \<Rightarrow> fault + (byte list \<times> Input)" where
  "Bytes_upper b i bs p =
     (if i \<le> b_to b then
        (case Bytes_matchOne b p of
           ((c, ok, Some err), p') \<Rightarrow> Inl (Error err)
         | ((c, ok, None), p') \<Rightarrow>
             (if \<not> ok then Inr (bs, p')
              else Bytes_upper b (i + 1) (bs @ [c]) p'))
      else Inr (bs, p))"
  by pat_completeness auto
termination
  by (relation "measure (\<lambda>(b, i, bs, p). nat (b_to b + 1 - i))") auto

text \<open>
  Go's \<open>int\<close> is taken at 64 bits: \<open>b.from + b.to\<close> wraps around in two's
  complement. \<open>make([]byte, len, cap)\<close> panics when \<open>len\<close> is negative,
  when \<open>len\<close> is above \<open>cap\<close>, and when \<open>cap\<close> bytes are more than the
  run-time system can address (\<open>maxAlloc\<close>, 2 to the 48 on the 64-bit
  platforms). An allocation within that limit is taken to succeed.
\<close>

definition wrap_int :: "int \<Rightarrow> int" where
  "wrap_int x = (x + 2 ^ 63) mod 2 ^ 64 - 2 ^ 63"

definition maxAlloc :: int where
  "maxAlloc = 2 ^ 48"

definition make_panics :: "int \<Rightarrow> int \<Rightarrow> bool" where
  "make_panics len cap \<longleftrightarrow> len < 0 \<or> cap < len \<or> maxAlloc < cap"

text \<open>\<open>Bytes.Match\<close>, with \<open>bs := make([]byte, b.from, b.from+b.to)\<close> first.\<close>

definition Bytes_Match :: "Bytes \<Rightarrow> Matcher" where
  "Bytes_Match b p =
     (if make_panics (b_from b) (wrap_int (b_from b + b_to b)) then Inl PanicMakeSlice
      else (case Bytes_lower b 0 (replicate (nat (b_from b)) 0) p of
              Inl e \<Rightarrow> Inl e
            | Inr (None, p') \<Rightarrow> Inr (None, p')
            | Inr (Some bs, p') \<Rightarrow>
                (case Bytes_upper b (b_from b + 1) bs p' of
                   Inl e \<Rightarrow> Inl e
                 | Inr (bs', p'') \<Rightarrow> Inr (Some (Match (b_t b) bs' [] []), p''))))"

section \<open>Combinators (match/matchers.go)\<close>

text \<open>
  \<open>selectLongest\<close>: \<open>n\<close> is the index of the \<open>range\<close> loop, \<open>ln\<close> and \<open>lm\<close>
  are the index and the match selected so far.
\<close>

fun selectLongest_loop :: "match option list \<Rightarrow> int \<Rightarrow> int \<Rightarrow> match option \<Rightarrow> int" where
  "selectLongest_loop [] n ln lm = ln"
| "selectLongest_loop (m # ms) n ln lm =
     (if lm = None \<or> Length m > Length lm then selectLongest_loop ms (n + 1) n m
      else selectLongest_loop ms (n + 1) ln lm)"

definition selectLongest :: "match option list \<Rightarrow> int" where
  "selectLongest ms = selectLongest_loop ms 0 0 None"

text \<open>
  The loop of \<open>Longest\<close>: each alternative runs on a fork of \<open>p\<close>; \<open>msm\<close>
  collects the matches and \<open>msp\<close> the forks. A fork is reachable from no
  later alternative, so \<open>msp\<close> keeps its reader, and the fork is put back
  on the store of the moment (\<open>child_of\<close>) when \<open>Keep\<close> is called on it.
  After an alternative returns, \<open>p\<close> is the parent of its fork.
\<close>

fun Longest_loop ::
  "Matcher list \<Rightarrow> Input \<Rightarrow> match option list \<Rightarrow> Reader list \<Rightarrow>
   fault + (match option list \<times> Reader list \<times> Input)" where
  "Longest_loop [] p msm msp = Inr (msm, msp, p)"
| "Longest_loop (mp # ms) p msm msp =
     (case mp (MayFail p) of
        Inl err \<Rightarrow> Inl err
      | Inr (m, c) \<Rightarrow> Longest_loop ms (parent c) (msm @ [m]) (msp @ [in_r c]))"

definition Longest :: "Matcher list \<Rightarrow> Matcher" where
  "Longest ms p =
     (case Longest_loop ms p [] [] of
        Inl err \<Rightarrow> Inl err
      | Inr (msm, msp, p') \<Rightarrow>
          (let w = selectLongest msm in
           if w \<noteq> - 1 then
             (if nat w < length msm then Inr (msm ! nat w, Keep (child_of p' (msp ! nat w)))
              else Inl PanicIndex)
           else Inr (None, p')))"

text \<open>\<open>First\<close>: the fork of a successful alternative is dropped, not kept.\<close>

fun First :: "Matcher list \<Rightarrow> Matcher" where
  "First [] p = Inr (None, p)"
| "First (mtch # mtchs) p =
     (case mtch (MayFail p) of
        Inl err \<Rightarrow> Inl err
      | Inr (Some m, c) \<Rightarrow> Inr (Some m, parent c)
      | Inr (None, c) \<Rightarrow> First mtchs (parent c))"

text \<open>\<open>Seq\<close>: the loop fills \<open>ms\<close> in order; the \<open>Match\<close> built has no \<open>Content\<close>.\<close>

fun Seq_loop :: "Matcher list \<Rightarrow> Input \<Rightarrow> match list \<Rightarrow> fault + (match list option \<times> Input)" where
  "Seq_loop [] p ms = Inr (Some ms, p)"
| "Seq_loop (mtch # mtchs) p ms =
     (case mtch p of
        Inl err \<Rightarrow> Inl err
      | Inr (None, p') \<Rightarrow> Inr (None, p')
      | Inr (Some m, p') \<Rightarrow> Seq_loop mtchs p' (ms @ [m]))"

definition Seq :: "Tag \<Rightarrow> Matcher list \<Rightarrow> Matcher" where
  "Seq t mtchs p =
     (case Seq_loop mtchs p [] of
        Inl err \<Rightarrow> Inl err
      | Inr (None, p') \<Rightarrow> Inr (None, p')
      | Inr (Some ms, p') \<Rightarrow> Inr (Some (Match t [] [] ms), p'))"

definition TryAndKeep :: "Matcher \<Rightarrow> Matcher" where
  "TryAndKeep mtch p =
     (case mtch (MayFail p) of
        Inl err \<Rightarrow> Inl err
      | Inr (None, c) \<Rightarrow> Inr (None, parent c)
      | Inr (Some m, c) \<Rightarrow> Inr (Some m, Keep c))"

definition Optional :: "Matcher \<Rightarrow> Matcher" where
  "Optional mtch p =
     (case TryAndKeep mtch p of
        Inl err \<Rightarrow> Inl err
      | Inr (Some m, p') \<Rightarrow> Inr (Some m, p')
      | Inr (None, p') \<Rightarrow> Inr (Some (Match token_None [] [] []), p'))"

section \<open>Decoding code points (Buffer.peekRunes, Reader.ReadRunes)\<close>

text \<open>
  \<open>unicode/utf8\<close> is standard library; its two functions used by
  \<open>peekRunes\<close> are parameters. \<open>DecodeRune\<close> returns the code point and the
  number of bytes it took.
\<close>

record utf8 =
  FullRune :: "byte list \<Rightarrow> bool"
  DecodeRune :: "byte list \<Rightarrow> rune \<times> nat"

definition RuneSelf :: byte where
  "RuneSelf = 0x80"

text \<open>
  The inner \<open>for { switch { ... } }\<close> of \<open>peekRunes\<close>. A \<open>break\<close> in a case
  of the \<open>switch\<close> leaves the \<open>switch\<close>, not the \<open>for\<close>, so the first two
  cases go round the inner loop again, and the loop is left by \<open>return\<close> or
  by a panic only: \<open>i\<close> is never incremented. The loop need not end for
  arbitrary decoders, so it takes fuel, and \<open>None\<close> is "out of fuel". The
  result is \<open>p\<close> as written, the count (\<open>total\<close>, here \<open>tot\<close>) and the error. \<open>readErr\<close> is nil
  whenever it is tested. \<open>pbs[0]\<close> panics on the empty slice and
  \<open>pbs[k:]\<close> panics when \<open>k\<close> is above \<open>len(pbs)\<close>.
\<close>

fun peekRunes_inner ::
  "nat \<Rightarrow> utf8 \<Rightarrow> Buffer \<Rightarrow> nat \<Rightarrow> nat \<Rightarrow> rune list \<Rightarrow> byte list \<Rightarrow> nat \<Rightarrow> bool \<Rightarrow>
   (fault + (rune list \<times> nat \<times> error option)) option" where
  "peekRunes_inner 0 u b off i p pbs tot atEof = None"
| "peekRunes_inner (Suc fuel) u b off i p pbs tot atEof =
     (case pbs of
        [] \<Rightarrow> Some (Inl PanicIndex)
      | c # cs \<Rightarrow>
          if c < RuneSelf then
            peekRunes_inner fuel u b off i (p[i := uint c]) cs (tot + 1) atEof
          else if FullRune u pbs then
            (case DecodeRune u pbs of
               (r, k) \<Rightarrow>
                 if length pbs < k then Some (Inl PanicSlice)
                 else peekRunes_inner fuel u b off i (p[i := r]) (drop k pbs) (tot + k) atEof)
          else if atEof then
            (case DecodeRune u pbs of
               (r, k) \<Rightarrow> Some (Inr (p[i := r], tot + k, None)))
          else
            (case Peek b (off + tot + length p - i) of
               (pbs', err) \<Rightarrow>
                 if err \<noteq> None \<and> \<not> (length pbs' > 0 \<and> err = Some EOF) then Some (Inr (p, 0, err))
                 else if length pbs' < off + tot then Some (Inl PanicSlice)
                 else peekRunes_inner fuel u b off i p (pbs @ drop (off + tot) pbs') tot
                        (err = Some EOF)))"

definition peekRunes ::
  "nat \<Rightarrow> utf8 \<Rightarrow> Buffer \<Rightarrow> nat \<Rightarrow> rune list \<Rightarrow>
   (fault + (rune list \<times> nat \<times> error option)) option" where
  "peekRunes fuel u b off p =
     (if length p = 0 then Some (Inr (p, 0, None))
      else (case Peek b (off + length p) of
              (pbs, err) \<Rightarrow>
                if err \<noteq> None \<and> \<not> (length pbs > 0 \<and> err = Some EOF) then Some (Inr (p, 0, err))
                else if length pbs < off then Some (Inl PanicSlice)
                else peekRunes_inner fuel u b off 0 p (drop off pbs) 0 (err = Some EOF)))"

definition Reader_ReadRunes ::
  "nat \<Rightarrow> utf8 \<Rightarrow> Buffer \<Rightarrow> Reader \<Rightarrow> rune list \<Rightarrow>
   (fault + ((rune list \<times> nat \<times> error option) \<times> Reader)) option" where
  "Reader_ReadRunes fuel u b rd p =
     (case peekRunes fuel u b (r_n rd) p of
        None \<Rightarrow> None
      | Some (Inl e) \<Rightarrow> Some (Inl e)
      | Some (Inr (p', k, err)) \<Rightarrow> Some (Inr ((p', k, err), rd\<lparr>r_n := r_n rd + k\<rparr>)))"

section \<open>A client matcher for the examples\<close>

text \<open>
  \<open>Matcher\<close> is an interface, and a grammar may bring its own
  \<open>MatcherFunc\<close>. The examples below use this one: it reads \<open>k\<close> bytes with
  \<open>Input.Read\<close> and returns them as a \<open>Match\<close> tagged \<open>t\<close>, or returns the
  read error.
\<close>

definition takeBytes :: "Tag \<Rightarrow> nat \<Rightarrow> Matcher" where
  "takeBytes t k p =
     (case Input_Read p (replicate k 0) of
        ((bs, n, Some err), p') \<Rightarrow> Inl (Error err)
      | ((bs, n, None), p') \<Rightarrow> Inr (Some (Match t bs [] []), p'))"

text \<open>
  A sequence of \<open>Input.Read\<close> calls on one \<open>Input\<close>, one call for each slice
  of \<open>bss\<close>; the results are collected in order.
\<close>

fun reads :: "byte list list \<Rightarrow> Input \<Rightarrow> (byte list \<times> nat \<times> error option) list \<times> Input" where
  "reads [] p = ([], p)"
| "reads (bs # bss) p =
     (case Input_Read p bs of
        (res, p') \<Rightarrow> (case reads bss p' of (rs, p'') \<Rightarrow> (res # rs, p'')))"

section \<open>The phone number grammar of the package example\<close>

text \<open>
  The tags are the third to sixth results of \<open>token.NextTag\<close>, which counts
  up from \<open>token.Last\<close>.
\<close>

definition TAreaCode :: Tag where
  "TAreaCode = 5"

definition TLocalCode :: Tag where
  "TLocalCode = 6"

definition TPersonalCode :: Tag where
  "TPersonalCode = 7"

definition TPhoneNumber :: Tag where
  "TPhoneNumber = 8"

definition digits :: "byte \<Rightarrow> bool" where
  "digits = BytesInRange 0x30 0x39"

definition MatchHyphen :: Matcher where
  "MatchHyphen = Bytes_Match (OneByte token_Literal [BytesInSet [0x2D]])"

definition MatchPhoneNumber :: Matcher where
  "MatchPhoneNumber =
     Seq TPhoneNumber
       [Bytes_Match (NBytes TAreaCode 3 3 [digits]),
        Optional MatchHyphen,
        Bytes_Match (NBytes TLocalCode 3 3 [digits]),
        Optional MatchHyphen,
        Bytes_Match (NBytes TPersonalCode 4 4 [digits])]"

text \<open>The input \<open>"555-555-5555"\<close> and the input \<open>"abcdefgh"\<close>, as bytes.\<close>

definition contact :: "byte list" where
  "contact = [0x35, 0x35, 0x35, 0x2D, 0x35, 0x35, 0x35, 0x2D, 0x35, 0x35, 0x35, 0x35]"

definition abcdefgh :: "byte list" where
  "abcdefgh = [0x61, 0x62, 0x63, 0x64, 0x65, 0x66, 0x67, 0x68]"

text \<open>A byte matcher that fails on the input \<open>"abcdefgh"\<close>: one byte, \<open>'x'\<close>.\<close>

definition MatchX :: Matcher where
  "MatchX = Bytes_Match (OneByte token_Literal [BytesInSet [0x78]])"

section \<open>What the longest-match selection is to find\<close>

text \<open>
  \<open>first_longest msm w\<close>: \<open>w\<close> is the first position of \<open>msm\<close> that holds a
  match of the greatest length found in \<open>msm\<close>.
\<close>

definition first_longest :: "match option list \<Rightarrow> nat \<Rightarrow> bool" where
  "first_longest msm w \<longleftrightarrow>
     w < length msm \<and> msm ! w \<noteq> None \<and>
     (\<forall>i < length msm. Length (msm ! i) \<le> Length (msm ! w)) \<and>
     (\<forall>i < w. msm ! i = None \<or> Length (msm ! i) < Length (msm ! w))"

section \<open>Basic facts\<close>

lemma Clone_same: "Clone rd = rd"
  by (simp add: Clone_def)

lemma parent_child_of: "parent (child_of p rd) = p"
  by (simp add: parent_def child_of_def)

lemma Discard_child_of: "Discard (child_of p rd) = p"
  by (simp add: Discard_def parent_child_of) (simp add: child_of_def)

lemmas read_defs = Input_Read_def Reader_Read_def peek_def Peek_def copy_def

lemmas new_defs = New_def NewBuffer_def Buffer_Reader_def

lemmas comb_defs = Seq_def Optional_def TryAndKeep_def MayFail_def child_of_def parent_def
  Keep_def Collect_def discard_def Reset_def Clone_def

lemma in_r_child_of: "in_r (child_of p rd) = rd"
  by (simp add: child_of_def)

text \<open>After \<open>Keep\<close> the \<open>Input\<close> returned stands where the kept one stood.\<close>

lemma rest_Keep: "rest (Keep c) = rest c"
  by (simp add: rest_def Keep_def Collect_def discard_def Reset_def split: list.splits)

section \<open>Match.Length\<close>

text \<open>
  C9. \<open>Length\<close> is defined on every \<open>*Match\<close>, the nil pointer included: it
  is 0 on nil and the length of \<open>Content\<close> otherwise.
\<close>

theorem Length_total: "Length None = 0 \<and> Length (Some m) = length (Content m)"
  by (simp add: Length_def)

section \<open>Discard\<close>

text \<open>
  C10. \<open>Discard\<close> on an \<open>Input\<close> without parent returns that \<open>Input\<close>
  unchanged. On a fork of \<open>p\<close>, whatever its own reader \<open>rd\<close> has become,
  it returns \<open>p\<close>, reader and buffer as they are.
\<close>

theorem Discard_root_and_fork:
  "in_parents root = [] \<Longrightarrow> Discard root = root \<and> Discard (child_of p rd) = p"
  by (simp add: Discard_child_of) (simp add: Discard_def)

theorem Discard_root_and_fork_witness:
  "in_parents (New contact) = [] \<and> Discard (New contact) = New contact \<and>
   Discard (child_of (New contact) \<lparr>r_n = 3\<rparr>) = New contact"
  using Discard_root_and_fork [of "New contact" "New contact" "\<lparr>r_n = 3\<rparr>"]
  by (simp add: New_def)

section \<open>Fork, read, discard\<close>

lemma Input_Read_child_of:
  "Input_Read (child_of p rd) bs =
     (fst (Input_Read (p\<lparr>in_r := rd\<rparr>) bs),
      child_of p (in_r (snd (Input_Read (p\<lparr>in_r := rd\<rparr>) bs))))"
  by (simp add: Input_Read_def child_of_def split: prod.splits)

lemma reads_child_of:
  "reads bss (child_of p rd) =
     (fst (reads bss (p\<lparr>in_r := rd\<rparr>)), child_of p (in_r (snd (reads bss (p\<lparr>in_r := rd\<rparr>)))))"
proof (induction bss arbitrary: rd)
  case Nil
  show ?case by (simp add: child_of_def)
next
  case (Cons bs bss)
  obtain res q where q: "Input_Read (p\<lparr>in_r := rd\<rparr>) bs = (res, q)"
    by (cases "Input_Read (p\<lparr>in_r := rd\<rparr>) bs")
  have qq: "q = p\<lparr>in_r := in_r q\<rparr>"
    using q by (auto simp: Input_Read_def split: prod.splits)
  have "reads (bs # bss) (child_of p rd) =
          (case reads bss (child_of p (in_r q)) of (rs, p'') \<Rightarrow> (res # rs, p''))"
    by (simp add: Input_Read_child_of q)
  also have "\<dots> = (res # fst (reads bss (p\<lparr>in_r := in_r q\<rparr>)),
                    child_of p (in_r (snd (reads bss (p\<lparr>in_r := in_r q\<rparr>)))))"
    by (simp add: Cons.IH)
  also have "\<dots> = (fst (reads (bs # bss) (p\<lparr>in_r := rd\<rparr>)),
                    child_of p (in_r (snd (reads (bs # bss) (p\<lparr>in_r := rd\<rparr>)))))"
    using qq by (simp add: q split: prod.splits)
  finally show ?case .
qed

text \<open>
  C7. Fork \<open>p\<close> with \<open>MayFail\<close>, perform any sequence of reads on the fork
  and call \<open>Discard\<close> on it: the \<open>Input\<close> returned is \<open>p\<close> as it was, read
  offset and buffer included, and the same reads performed on it return
  what they returned on the fork, bytes, counts and errors alike.
\<close>

theorem fork_reads_discard:
  "Discard (snd (reads bss (MayFail p))) = p \<and>
   fst (reads bss (Discard (snd (reads bss (MayFail p))))) = fst (reads bss (MayFail p))"
proof -
  have "reads bss (MayFail p) = (fst (reads bss p), child_of p (in_r (snd (reads bss p))))"
    using reads_child_of [of bss p "in_r p"] by (simp add: MayFail_def Clone_same)
  then show ?thesis by (simp add: Discard_child_of)
qed

section \<open>The Bytes matcher\<close>

text \<open>
  The first loop of \<open>Bytes.Match\<close> never runs to its end: its last round,
  \<open>i = b.from\<close>, either stops on a byte that fails the predicate or writes
  past the end of \<open>bs\<close>. So \<open>Bytes.Match\<close> never returns a \<open>Match\<close>.
\<close>

lemma Bytes_lower_never_done:
  "0 \<le> i \<Longrightarrow> i \<le> b_from b \<Longrightarrow> length bs = nat (b_from b) \<Longrightarrow>
   Bytes_lower b i bs p \<noteq> Inr (Some bs', p')"
proof (induction b i bs p rule: Bytes_lower.induct)
  case (1 b i bs p)
  obtain c ok err q where m: "Bytes_matchOne b p = ((c, ok, err), q)"
    by (metis prod.exhaust)
  show ?case
  proof (cases "err = None \<and> ok \<and> nat i < length bs")
    case True
    then have lt: "i + 1 \<le> b_from b" using "1.prems" by linarith
    have "Bytes_lower b (i + 1) (bs[nat i := c]) q \<noteq> Inr (Some bs', p')"
      using "1.IH" [of "(c, ok, err)" q c "(ok, err)" ok err] m True lt "1.prems" by simp
    then show ?thesis
      using m True "1.prems" by (subst Bytes_lower.simps) simp
  next
    case False
    then show ?thesis
      using m "1.prems" by (subst Bytes_lower.simps) (auto split: option.splits)
  qed
qed

lemma Bytes_Match_never_matches: "Bytes_Match b p \<noteq> Inr (Some m, p')"
proof (cases "make_panics (b_from b) (wrap_int (b_from b + b_to b))")
  case True
  then show ?thesis by (simp add: Bytes_Match_def)
next
  case False
  then have "0 \<le> b_from b"
    by (simp add: make_panics_def)
  then have "Bytes_lower b 0 (replicate (nat (b_from b)) 0) p \<noteq> Inr (Some bs', q)" for bs' q
    by (intro Bytes_lower_never_done) auto
  then show ?thesis
    using False
    by (auto simp: Bytes_Match_def simp del: Bytes_lower.simps Bytes_upper.simps
        split: sum.splits option.splits prod.splits)
qed

text \<open>
  A \<open>Bytes\<close> matcher moves the reader of the \<open>Input\<close> it runs on and
  nothing else: the buffer and the ancestors are left as they are.
\<close>

lemma Bytes_matchOne_frame:
  "Bytes_matchOne b p = (res, p') \<Longrightarrow> in_buf p' = in_buf p \<and> in_parents p' = in_parents p"
  by (auto simp: Bytes_matchOne_def Input_Read_def split: prod.splits option.splits if_splits)

lemma Bytes_lower_frame:
  "Bytes_lower b i bs p = Inr (r, p') \<Longrightarrow> in_buf p' = in_buf p \<and> in_parents p' = in_parents p"
proof (induction b i bs p rule: Bytes_lower.induct)
  case (1 b i bs p)
  obtain c ok err q where m: "Bytes_matchOne b p = ((c, ok, err), q)"
    by (metis prod.exhaust)
  note f = Bytes_matchOne_frame [OF m]
  have u: "Bytes_lower b i bs p =
     (if i \<le> b_from b then
        (case err of Some e \<Rightarrow> Inl (Error e)
         | None \<Rightarrow>
             (if \<not> ok then Inr (None, q)
              else if nat i < length bs then Bytes_lower b (i + 1) (bs[nat i := c]) q
              else Inl PanicIndex))
      else Inr (Some bs, p))"
    by (subst Bytes_lower.simps) (simp del: Bytes_lower.simps add: m)
  show ?case
  proof (cases "i \<le> b_from b \<and> err = None \<and> ok \<and> nat i < length bs")
    case True
    then have "Bytes_lower b (i + 1) (bs[nat i := c]) q = Inr (r, p')"
      using "1.prems" u by (simp del: Bytes_lower.simps)
    then have "in_buf p' = in_buf q \<and> in_parents p' = in_parents q"
      using "1.IH" [of "(c, ok, err)" q c "(ok, err)" ok err] m True
      by (simp del: Bytes_lower.simps)
    with f show ?thesis by simp
  next
    case False
    then show ?thesis
      using "1.prems" f unfolding u
      by (auto simp del: Bytes_lower.simps split: if_splits option.splits)
  qed
qed

lemma Bytes_upper_frame:
  "Bytes_upper b i bs p = Inr (r, p') \<Longrightarrow> in_buf p' = in_buf p \<and> in_parents p' = in_parents p"
proof (induction b i bs p rule: Bytes_upper.induct)
  case (1 b i bs p)
  obtain c ok err q where m: "Bytes_matchOne b p = ((c, ok, err), q)"
    by (metis prod.exhaust)
  note f = Bytes_matchOne_frame [OF m]
  have u: "Bytes_upper b i bs p =
     (if i \<le> b_to b then
        (case err of Some e \<Rightarrow> Inl (Error e)
         | None \<Rightarrow>
             (if \<not> ok then Inr (bs, q)
              else Bytes_upper b (i + 1) (bs @ [c]) q))
      else Inr (bs, p))"
    by (subst Bytes_upper.simps) (simp del: Bytes_upper.simps add: m)
  show ?case
  proof (cases "i \<le> b_to b \<and> err = None \<and> ok")
    case True
    then have "Bytes_upper b (i + 1) (bs @ [c]) q = Inr (r, p')"
      using "1.prems" u by (simp del: Bytes_upper.simps)
    then have "in_buf p' = in_buf q \<and> in_parents p' = in_parents q"
      using "1.IH" [of "(c, ok, err)" q c "(ok, err)" ok err] m True
      by (simp del: Bytes_upper.simps)
    with f show ?thesis by simp
  next
    case False
    then show ?thesis
      using "1.prems" f unfolding u
      by (auto simp del: Bytes_upper.simps split: if_splits option.splits)
  qed
qed

lemma Bytes_Match_frame:
  assumes "Bytes_Match b p = Inr (r, p')"
  shows "in_buf p' = in_buf p \<and> in_parents p' = in_parents p"
proof -
  from assms obtain x q where l: "Bytes_lower b 0 (replicate (nat (b_from b)) 0) p = Inr (x, q)"
    by (auto simp: Bytes_Match_def simp del: Bytes_lower.simps Bytes_upper.simps
        split: if_splits sum.splits)
  note fl = Bytes_lower_frame [OF l]
  show ?thesis
  proof (cases x)
    case None
    with assms l fl show ?thesis
      by (auto simp: Bytes_Match_def simp del: Bytes_lower.simps Bytes_upper.simps
          split: if_splits)
  next
    case (Some bs)
    with assms l obtain bs' where "Bytes_upper b (b_from b + 1) bs q = Inr (bs', p')"
      by (auto simp: Bytes_Match_def simp del: Bytes_lower.simps Bytes_upper.simps
          split: if_splits sum.splits)
    from Bytes_upper_frame [OF this] fl show ?thesis by simp
  qed
qed

lemmas bytes_defs = Bytes_Match_def NBytes_def OneByte_def Bytes_matchOne_def BytesInRange_def
  digits_def make_panics_def wrap_int_def maxAlloc_def

text \<open>
  With the greatest \<open>int\<close> as upper bound, \<open>make\<close> panics before any byte
  is read: the capacity wraps below the length, or is beyond \<open>maxAlloc\<close>.
\<close>

lemma Bytes_Match_huge_bounds:
  "Bytes_Match (NBytes t 1 (2 ^ 63 - 1) preds) p = Inl PanicMakeSlice \<and>
   Bytes_Match (NBytes t 0 (2 ^ 63 - 1) preds) p = Inl PanicMakeSlice"
  by (simp add: Bytes_Match_def NBytes_def make_panics_def wrap_int_def maxAlloc_def
      del: Bytes_lower.simps Bytes_upper.simps)

text \<open>
  C1, at the failing input. \<open>NBytes(t, 3, 3, digit)\<close> on \<open>"555-555-5555"\<close>:
  three digits stand at the front, yet the matcher reads a fourth byte in
  its lower-bound loop, the hyphen fails the predicate and the result is
  no-match, with four bytes read. On \<open>"5555"\<close> the fourth digit is written
  to \<open>bs[3]\<close> of a slice of length 3 and the matcher panics.
\<close>

theorem NBytes_lower_bound_off_by_one:
  "Bytes_Match (NBytes t 3 3 [digits]) (New contact) =
     Inr (None, (New contact)\<lparr>in_r := \<lparr>r_n = 4\<rparr>\<rparr>) \<and>
   Bytes_Match (NBytes t 3 3 [digits]) (New [0x35, 0x35, 0x35, 0x35]) = Inl PanicIndex"
  by (simp add: bytes_defs new_defs read_defs contact_def)

section \<open>Seq and the phone number grammar\<close>

text \<open>Whatever the sub-matchers consumed, the \<open>Match\<close> of \<open>Seq\<close> has no content.\<close>

lemma Seq_no_Content: "Seq t mtchs p = Inr (Some m, p') \<Longrightarrow> Content m = []"
  by (auto simp: Seq_def split: sum.splits option.splits prod.splits)

text \<open>
  C2, at the failing input. The phone number grammar of the example on
  \<open>"555-555-5555"\<close>, from a root \<open>Input\<close>: the area code matcher
  \<open>NBytes(TAreaCode, 3, 3, digits)\<close> reads the hyphen as a fourth byte and
  returns no-match, so \<open>Seq\<close> returns no-match at its first step, with four
  bytes read and no \<open>Match\<close> built.
\<close>

theorem phone_number_no_match:
  "MatchPhoneNumber (New contact) = Inr (None, (New contact)\<lparr>in_r := \<lparr>r_n = 4\<rparr>\<rparr>)"
  by (simp add: MatchPhoneNumber_def MatchHyphen_def comb_defs bytes_defs new_defs read_defs
      contact_def)

section \<open>First\<close>

lemma First_success:
  "mtch (MayFail p) = Inr (Some m, c) \<Longrightarrow> First (mtch # mtchs) p = Inr (Some m, parent c)"
  by simp

lemmas ev_defs = takeBytes_def comb_defs new_defs read_defs abcdefgh_def

text \<open>
  C3, at the failing input. \<open>First\<close> with one alternative that reads one
  byte, on \<open>"abcdefgh"\<close>: the alternative succeeds on its fork with content
  \<open>"a"\<close>, \<open>First\<close> returns that \<open>Match\<close>, and the caller's \<open>Input\<close> is what
  it was before the call, still in front of \<open>"a"\<close>: the fork is not kept.
  \<open>TryAndKeep\<close> with the same matcher on the same input leaves the caller
  behind the \<open>"a"\<close>.
\<close>

theorem First_does_not_keep:
  "First [takeBytes t 1] (New abcdefgh) = Inr (Some (Match t [0x61] [] []), New abcdefgh) \<and>
   TryAndKeep (takeBytes t 1) (New abcdefgh) =
     Inr (Some (Match t [0x61] [] []), New (tl abcdefgh))"
  by (simp add: ev_defs)

section \<open>Reading code points\<close>

text \<open>
  Bytes below \<open>RuneSelf\<close> are taken one at a time without leaving the inner
  loop, so a window of such bytes is used up and the next round indexes
  the empty slice.
\<close>

lemma peekRunes_inner_ascii:
  "\<forall>c \<in> set pbs. c < RuneSelf \<Longrightarrow> length pbs < fuel \<Longrightarrow>
   peekRunes_inner fuel u b off i p pbs tot atEof = Some (Inl PanicIndex)"
proof (induction pbs arbitrary: fuel p tot)
  case Nil
  then obtain k where "fuel = Suc k" by (cases fuel) auto
  then show ?case by simp
next
  case (Cons c cs)
  then obtain k where k: "fuel = Suc k" by (cases fuel) auto
  have "peekRunes_inner k u b off i (p[i := uint c]) cs (tot + 1) atEof = Some (Inl PanicIndex)"
    using Cons.prems k by (intro Cons.IH) auto
  then show ?case
    using Cons.prems(1) k by simp
qed

lemma peekRunes_ascii_panics:
  assumes "p \<noteq> []" and "off + length p \<le> length (buf_data b)"
    and "off + length p \<le> buf_size b"
    and "\<forall>c \<in> set (drop off (take (off + length p) (buf_data b))). c < RuneSelf"
    and "length p < fuel"
  shows "peekRunes fuel u b off p = Some (Inl PanicIndex)"
proof -
  have "Peek b (off + length p) = (take (off + length p) (buf_data b), None)"
    using assms(2,3) by (simp add: Peek_def)
  moreover have "peekRunes_inner fuel u b off 0 p (drop off (take (off + length p) (buf_data b)))
      0 False = Some (Inl PanicIndex)"
    using assms(2,4,5) by (intro peekRunes_inner_ascii) auto
  ultimately show ?thesis
    using assms(1,2) by (simp add: peekRunes_def)
qed

text \<open>
  A lead byte that is not yet a full code point, with more input behind
  it: the second \<open>Peek\<close> asks for \<open>off + total + len(p) - i\<close> bytes, as
  many as the first, so the window does not grow, and the decoder is next
  given the lead byte glued to itself.
\<close>

lemma peekRunes_repeek_same_window:
  assumes "RuneSelf \<le> c" and "\<not> FullRune u [c]" and "buf_data b = c # d # ds"
    and "1 \<le> buf_size b"
  shows "peekRunes (Suc fuel) u b 0 [0] = peekRunes_inner fuel u b 0 0 [0] [c, c] 0 False"
proof -
  have p: "Peek b (Suc 0) = ([c], None)"
    using assms(3,4) by (simp add: Peek_def)
  have n: "\<not> c < RuneSelf"
    using assms(1) by (simp add: not_less)
  show ?thesis
    using n assms(2) p by (simp add: peekRunes_def)
qed

text \<open>
  C4, at the failing input. One code point is read from a source that
  holds the single byte \<open>"a"\<close>, whatever the decoder and with fuel for two
  rounds or more: the first round stores \<open>'a'\<close>, the \<open>break\<close> leaves the
  \<open>switch\<close> only, and the second round evaluates \<open>pbs[0]\<close> on the empty
  slice. \<open>ReadRunes\<close> panics and no code point is returned.
\<close>

theorem ReadRunes_ascii_panics:
  "Reader_ReadRunes (Suc (Suc fuel)) u (NewBuffer [0x61]) Buffer_Reader [0] = Some (Inl PanicIndex)"
  by (simp add: Reader_ReadRunes_def peekRunes_def Peek_def new_defs RuneSelf_def)

section \<open>Optional\<close>

text \<open>
  Below the root, \<open>TryAndKeep\<close> and \<open>Optional\<close> in turn move only the reader
  of the \<open>Input\<close> they run on, when the matcher they wrap does so on the
  fork.
\<close>

lemma TryAndKeep_frame:
  assumes "in_parents p \<noteq> []"
    and "\<And>x c. mtch (MayFail p) = Inr (x, c) \<Longrightarrow>
           in_buf c = in_buf p \<and> in_parents c = in_parents (MayFail p)"
    and "TryAndKeep mtch p = Inr (r, p')"
  shows "in_buf p' = in_buf p \<and> in_parents p' = in_parents p"
proof -
  from assms(3) obtain x c where m: "mtch (MayFail p) = Inr (x, c)"
    by (auto simp: TryAndKeep_def split: sum.splits)
  from assms(2) [OF m] have f: "in_buf c = in_buf p" "in_parents c = in_r p # in_parents p"
    by (simp_all add: MayFail_def child_of_def)
  obtain g gs where g: "in_parents p = g # gs"
    using assms(1) by (cases "in_parents p") auto
  show ?thesis
    using assms(3) m f g by (cases x) (auto simp: TryAndKeep_def parent_def Keep_def)
qed

lemma Optional_frame:
  assumes "in_parents p \<noteq> []"
    and "\<And>x c. mtch (MayFail p) = Inr (x, c) \<Longrightarrow>
           in_buf c = in_buf p \<and> in_parents c = in_parents (MayFail p)"
    and "Optional mtch p = Inr (r, p')"
  shows "in_buf p' = in_buf p \<and> in_parents p' = in_parents p"
proof -
  from assms(3) obtain x where "TryAndKeep mtch p = Inr (x, p')"
    by (auto simp: Optional_def split: sum.splits option.splits)
  from TryAndKeep_frame [OF assms(1) assms(2) this] show ?thesis by simp
qed

lemma Optional_not_None: "Optional mtch p \<noteq> Inr (None, p')"
  by (simp add: Optional_def split: sum.splits option.splits prod.splits)

text \<open>
  C6. \<open>Optional mtch\<close> never returns no-match. When \<open>mtch\<close> returns
  no-match on the fork, having moved nothing but the fork's own reader,
  \<open>Optional\<close> returns a \<open>Match\<close> tagged \<open>token.None\<close> with empty content and
  the caller's \<open>Input\<close> is what it was before the call. When \<open>mtch\<close> returns
  a \<open>Match\<close>, \<open>Optional\<close> returns it, the fork is kept, and the \<open>Input\<close> the
  caller goes on with stands where the fork stood.
\<close>

theorem Optional_never_fails:
  "Optional mtch p \<noteq> Inr (None, p') \<and>
   (mtch (MayFail p) = Inr (None, c) \<and> in_buf c = in_buf p \<and> in_parents c = in_parents (MayFail p)
      \<longrightarrow> Optional mtch p = Inr (Some (Match token_None [] [] []), p)) \<and>
   (mtch (MayFail p) = Inr (Some m, c)
      \<longrightarrow> Optional mtch p = Inr (Some m, Keep c) \<and> rest (Keep c) = rest c)"
proof (intro conjI impI)
  show "Optional mtch p \<noteq> Inr (None, p')" by (rule Optional_not_None)
next
  assume a: "mtch (MayFail p) = Inr (None, c) \<and> in_buf c = in_buf p \<and>
             in_parents c = in_parents (MayFail p)"
  then have "parent c = p"
    by (simp add: parent_def MayFail_def child_of_def)
  with a show "Optional mtch p = Inr (Some (Match token_None [] [] []), p)"
    by (simp add: Optional_def TryAndKeep_def)
next
  assume "mtch (MayFail p) = Inr (Some m, c)"
  then show "Optional mtch p = Inr (Some m, Keep c)"
    by (simp add: Optional_def TryAndKeep_def)
next
  show "rest (Keep c) = rest c" by (rule rest_Keep)
qed

theorem Optional_never_fails_witness:
  "MatchHyphen (MayFail (New abcdefgh)) = Inr (None, child_of (New abcdefgh) \<lparr>r_n = 1\<rparr>) \<and>
   Optional MatchHyphen (New abcdefgh) = Inr (Some (Match token_None [] [] []), New abcdefgh) \<and>
   takeBytes 9 2 (MayFail (New abcdefgh)) =
     Inr (Some (Match 9 [0x61, 0x62] [] []), child_of (New abcdefgh) \<lparr>r_n = 2\<rparr>) \<and>
   Optional (takeBytes 9 2) (New abcdefgh) =
     Inr (Some (Match 9 [0x61, 0x62] [] []), New (drop 2 abcdefgh)) \<and>
   rest (New (drop 2 abcdefgh)) = drop 2 abcdefgh"
proof -
  let ?p = "New abcdefgh"
  have h: "MatchHyphen (MayFail ?p) = Inr (None, child_of ?p \<lparr>r_n = 1\<rparr>)"
    by (simp add: MatchHyphen_def bytes_defs ev_defs)
  have t: "takeBytes 9 2 (MayFail ?p) =
     Inr (Some (Match 9 [0x61, 0x62] [] []), child_of ?p \<lparr>r_n = 2\<rparr>)"
    by (simp add: ev_defs)
  have k: "Keep (child_of ?p \<lparr>r_n = 2\<rparr>) = New (drop 2 abcdefgh)"
    by (simp add: ev_defs)
  have r: "rest (New (drop 2 abcdefgh)) = drop 2 abcdefgh"
    by (simp add: rest_def new_defs)
  from Optional_never_fails [of MatchHyphen ?p ?p "child_of ?p \<lparr>r_n = 1\<rparr>" "Match 0 [] [] []"] h
  have 1: "Optional MatchHyphen ?p = Inr (Some (Match token_None [] [] []), ?p)"
    by (simp add: child_of_def MayFail_def)
  from Optional_never_fails [of "takeBytes 9 2" ?p ?p "child_of ?p \<lparr>r_n = 2\<rparr>"
      "Match 9 [0x61, 0x62] [] []"] t k
  have 2: "Optional (takeBytes 9 2) ?p =
     Inr (Some (Match 9 [0x61, 0x62] [] []), New (drop 2 abcdefgh))"
    by simp
  from h 1 t 2 r show ?thesis by simp
qed

section \<open>Longest\<close>

lemma Length_pos_Some: "Length lm < Length m \<Longrightarrow> m \<noteq> None"
  by (cases m) (auto simp: Length_def)

lemma first_longest_snoc_keep:
  assumes "first_longest pre w" and "\<not> Length (pre ! w) < Length m"
  shows "first_longest (pre @ [m]) w"
  using assms unfolding first_longest_def
  by (auto simp: nth_append less_Suc_eq)

lemma first_longest_snoc_take:
  assumes "first_longest pre w" and "Length (pre ! w) < Length m"
  shows "first_longest (pre @ [m]) (length pre)"
  using assms Length_pos_Some [of "pre ! w" m] unfolding first_longest_def
  by (auto simp: nth_append less_Suc_eq intro: le_less_trans less_imp_le)

text \<open>Once a match is selected, the loop keeps the first longest one.\<close>

lemma selectLongest_loop_Some:
  "first_longest pre w \<Longrightarrow>
   \<exists>w'. selectLongest_loop ms (int (length pre)) (int w) (pre ! w) = int w' \<and>
        first_longest (pre @ ms) w'"
proof (induction ms arbitrary: pre w)
  case Nil
  then show ?case by simp
next
  case (Cons m ms)
  obtain y where s: "pre ! w = Some y"
    using Cons.prems by (auto simp: first_longest_def)
  have w: "w < length pre" using Cons.prems by (simp add: first_longest_def)
  show ?case
  proof (cases "Length (pre ! w) < Length m")
    case True
    have "first_longest (pre @ [m]) (length pre)"
      using Cons.prems True by (rule first_longest_snoc_take)
    from Cons.IH [OF this] show ?thesis
      using True s by (simp add: add.commute)
  next
    case False
    have "first_longest (pre @ [m]) w"
      using Cons.prems False by (rule first_longest_snoc_keep)
    from Cons.IH [OF this] have
      "\<exists>w'. selectLongest_loop ms (int (length pre) + 1) (int w) (pre ! w) = int w' \<and>
            first_longest (pre @ m # ms) w'"
      using w by (simp add: add.commute nth_append)
    then show ?thesis
      using False s by simp
  qed
qed

text \<open>While only nil matches were seen, every round moves the selection on.\<close>

lemma selectLongest_loop_None:
  "\<forall>x \<in> set pre. x = None \<Longrightarrow> \<exists>x \<in> set ms. x \<noteq> None \<Longrightarrow>
   \<exists>w'. selectLongest_loop ms (int (length pre)) ln None = int w' \<and>
        first_longest (pre @ ms) w'"
proof (induction ms arbitrary: pre ln)
  case Nil
  then show ?case by simp
next
  case (Cons m ms)
  show ?case
  proof (cases m)
    case None
    then have a: "\<forall>x \<in> set (pre @ [m]). x = None" and b: "\<exists>x \<in> set ms. x \<noteq> None"
      using Cons.prems by auto
    from Cons.IH [OF a b, of "int (length pre)"] show ?thesis
      using None by (simp add: add.commute)
  next
    case (Some x)
    have n: "pre ! i = None" if "i < length pre" for i
      using Cons.prems(1) that by simp
    have "first_longest (pre @ [m]) (length pre)"
      using Some n
      by (auto simp: first_longest_def nth_append less_Suc_eq Length_def)
    from selectLongest_loop_Some [OF this, of ms] show ?thesis
      by (simp add: add.commute)
  qed
qed

lemma selectLongest_first_longest:
  "\<exists>x \<in> set msm. x \<noteq> None \<Longrightarrow>
   0 \<le> selectLongest msm \<and> first_longest msm (nat (selectLongest msm))"
  using selectLongest_loop_None [of "[]" msm 0] by (auto simp: selectLongest_def)

lemma selectLongest_loop_all_None:
  "\<forall>x \<in> set ms. x = None \<Longrightarrow>
   selectLongest_loop ms n ln None = (if ms = [] then ln else n + int (length ms) - 1)"
  by (induction ms arbitrary: n ln) auto

lemma selectLongest_all_None:
  "ms \<noteq> [] \<Longrightarrow> \<forall>x \<in> set ms. x = None \<Longrightarrow> selectLongest ms = int (length ms) - 1"
  by (simp add: selectLongest_def selectLongest_loop_all_None)

lemma selectLongest_loop_nonneg:
  "0 \<le> n \<Longrightarrow> 0 \<le> ln \<Longrightarrow> 0 \<le> selectLongest_loop ms n ln lm"
  by (induction ms arbitrary: n ln lm) auto

lemma selectLongest_nonneg: "0 \<le> selectLongest ms"
  by (simp add: selectLongest_def selectLongest_loop_nonneg)

text \<open>
  The loop of \<open>Longest\<close> over alternatives that return without a fault and
  move nothing but their own fork: \<open>msm ! i\<close> is what alternative \<open>i\<close>
  returns on a fork of \<open>p\<close> and \<open>msp ! i\<close> the reader it leaves the fork
  with.
\<close>

lemma Longest_loop_run:
  "length msm = length ms \<Longrightarrow> length msp = length ms \<Longrightarrow>
   \<forall>i < length ms. (ms ! i) (MayFail p) = Inr (msm ! i, child_of p (msp ! i)) \<Longrightarrow>
   Longest_loop ms p am ap = Inr (am @ msm, ap @ msp, p)"
proof (induction ms arbitrary: msm msp am ap)
  case Nil
  then show ?case by simp
next
  case (Cons mp ms)
  obtain m msm' where msm: "msm = m # msm'" using Cons.prems(1) by (cases msm) auto
  obtain r msp' where msp: "msp = r # msp'" using Cons.prems(2) by (cases msp) auto
  have h: "mp (MayFail p) = Inr (m, child_of p r)"
    using Cons.prems(3) msm msp by auto
  have t: "\<forall>i < length ms. (ms ! i) (MayFail p) = Inr (msm' ! i, child_of p (msp' ! i))"
    using Cons.prems(3) msm msp by auto
  have "Longest_loop ms p (am @ [m]) (ap @ [r]) = Inr ((am @ [m]) @ msm', (ap @ [r]) @ msp', p)"
    using Cons.prems(1,2) msm msp t by (intro Cons.IH) auto
  then show ?case
    using h msm msp by (simp add: parent_child_of in_r_child_of)
qed

text \<open>
  C5, as stated, fails when an alternative returns an error. On
  \<open>"abcdefgh"\<close> from a root \<open>Input\<close> the first alternative reads three
  bytes and succeeds on its fork, the second asks for nine bytes and gets
  \<open>io.EOF\<close>: \<open>Longest\<close> returns that error at once (\<open>return nil, err\<close> in
  its loop) and no \<open>Match\<close>, although one alternative succeeded.
\<close>

theorem Longest_fault_counterexample:
  "takeBytes 1 3 (MayFail (New abcdefgh)) =
     Inr (Some (Match 1 [0x61, 0x62, 0x63] [] []), child_of (New abcdefgh) \<lparr>r_n = 3\<rparr>) \<and>
   takeBytes 2 9 (MayFail (New abcdefgh)) = Inl (Error EOF) \<and>
   Longest [takeBytes 1 3, takeBytes 2 9] (New abcdefgh) = Inl (Error EOF)"
  by (simp add: Longest_def ev_defs)

text \<open>
  C5, amended. Let every alternative of \<open>Longest\<close>, run on a fork of \<open>p\<close>,
  return a match or no-match (none returns an error) and move nothing but
  its fork, and let one of them at least return a match. Then \<open>Longest\<close> returns the match of some
  alternative \<open>w\<close> and keeps the fork of \<open>w\<close> and no other; the \<open>Input\<close>
  after the call stands where that fork stood; no alternative returned a
  longer content; and every alternative listed before \<open>w\<close> failed or
  returned a shorter content.
\<close>

theorem Longest_keeps_first_longest:
  assumes "length msm = length ms" and "length msp = length ms"
    and "\<forall>i < length ms. (ms ! i) (MayFail p) = Inr (msm ! i, child_of p (msp ! i))"
    and "\<exists>i < length ms. msm ! i \<noteq> None"
  shows "\<exists>w < length ms.
           Longest ms p = Inr (msm ! w, Keep (child_of p (msp ! w))) \<and>
           rest (Keep (child_of p (msp ! w))) = rest (child_of p (msp ! w)) \<and>
           msm ! w \<noteq> None \<and>
           (\<forall>i < length ms. Length (msm ! i) \<le> Length (msm ! w)) \<and>
           (\<forall>i < w. msm ! i = None \<or> Length (msm ! i) < Length (msm ! w))"
proof -
  have run: "Longest_loop ms p [] [] = Inr (msm, msp, p)"
    using Longest_loop_run [OF assms(1,2,3), of "[]" "[]"] by simp
  have "\<exists>x \<in> set msm. x \<noteq> None"
    using assms(1,4) by (metis nth_mem)
  then have w: "0 \<le> selectLongest msm" "first_longest msm (nat (selectLongest msm))"
    using selectLongest_first_longest by auto
  define w where "w = nat (selectLongest msm)"
  have fl: "first_longest msm w" using w by (simp add: w_def)
  have lt: "w < length msm" using fl by (simp add: first_longest_def)
  have "Longest ms p = Inr (msm ! w, Keep (child_of p (msp ! w)))"
    using run w(1) lt by (simp add: Longest_def w_def Let_def)
  then show ?thesis
    using fl assms(1) unfolding first_longest_def by (auto simp: rest_Keep)
qed

text \<open>
  The two cases of the specification, on \<open>"abcdefgh"\<close> from a root
  \<open>Input\<close>: of a 3-byte and a 7-byte alternative the 7-byte match is
  returned and \<open>"h"\<close> is left; of two 4-byte alternatives the one listed
  first is returned and \<open>"efgh"\<close> is left.
\<close>

theorem Longest_keeps_first_longest_witness:
  "Longest [takeBytes 1 3, takeBytes 2 7] (New abcdefgh) =
     Inr (Some (Match 2 [0x61, 0x62, 0x63, 0x64, 0x65, 0x66, 0x67] [] []), New [0x68]) \<and>
   Longest [takeBytes 1 4, takeBytes 2 4] (New abcdefgh) =
     Inr (Some (Match 1 [0x61, 0x62, 0x63, 0x64] [] []), New [0x65, 0x66, 0x67, 0x68])"
proof -
  let ?p = "New abcdefgh"
  let ?m3 = "Match 1 [0x61, 0x62, 0x63] [] []"
  let ?m7 = "Match 2 [0x61, 0x62, 0x63, 0x64, 0x65, 0x66, 0x67] [] []"
  let ?a4 = "Match 1 [0x61, 0x62, 0x63, 0x64] [] []"
  let ?b4 = "Match 2 [0x61, 0x62, 0x63, 0x64] [] []"
  have two: "i = 0 \<or> i = 1" if "i < length [x, y]" for i :: nat and x y :: 'a
    using that by auto
  have t3: "takeBytes 1 3 (MayFail ?p) = Inr (Some ?m3, child_of ?p \<lparr>r_n = 3\<rparr>)"
    by (simp add: ev_defs)
  have t7: "takeBytes 2 7 (MayFail ?p) = Inr (Some ?m7, child_of ?p \<lparr>r_n = 7\<rparr>)"
    by (simp add: ev_defs)
  have a4: "takeBytes 1 4 (MayFail ?p) = Inr (Some ?a4, child_of ?p \<lparr>r_n = 4\<rparr>)"
    by (simp add: ev_defs)
  have b4: "takeBytes 2 4 (MayFail ?p) = Inr (Some ?b4, child_of ?p \<lparr>r_n = 4\<rparr>)"
    by (simp add: ev_defs)
  have k7: "Keep (child_of ?p \<lparr>r_n = 7\<rparr>) = New [0x68]"
    by (simp add: ev_defs)
  have k4: "Keep (child_of ?p \<lparr>r_n = 4\<rparr>) = New [0x65, 0x66, 0x67, 0x68]"
    by (simp add: ev_defs)
  \<comment> \<open>3 bytes against 7 bytes\<close>
  let ?ms = "[takeBytes 1 3, takeBytes 2 7]"
  let ?msm = "[Some ?m3, Some ?m7]"
  let ?msp = "[\<lparr>r_n = 3\<rparr>, \<lparr>r_n = 7\<rparr>]"
  have h3: "\<forall>i < length ?ms. (?ms ! i) (MayFail ?p) = Inr (?msm ! i, child_of ?p (?msp ! i))"
    using t3 t7 two by fastforce
  have h4: "\<exists>i < length ?ms. ?msm ! i \<noteq> None"
    by (rule exI [of _ 0]) simp
  from Longest_keeps_first_longest [of ?msm ?ms ?msp ?p, OF _ _ h3 h4]
  obtain w where w: "w < length ?ms"
    "Longest ?ms ?p = Inr (?msm ! w, Keep (child_of ?p (?msp ! w)))"
    "\<forall>i < length ?ms. Length (?msm ! i) \<le> Length (?msm ! w)"
    by auto
  from w(3) [rule_format, of 1] have "Length (?msm ! 1) \<le> Length (?msm ! w)" by simp
  with two [OF w(1)] have "w = 1" by (auto simp: Length_def)
  with w(2) k7 have one: "Longest ?ms ?p = Inr (Some ?m7, New [0x68])" by simp
  \<comment> \<open>4 bytes against 4 bytes\<close>
  let ?ns = "[takeBytes 1 4, takeBytes 2 4]"
  let ?nsm = "[Some ?a4, Some ?b4]"
  let ?nsp = "[\<lparr>r_n = 4\<rparr>, \<lparr>r_n = 4\<rparr>]"
  have g3: "\<forall>i < length ?ns. (?ns ! i) (MayFail ?p) = Inr (?nsm ! i, child_of ?p (?nsp ! i))"
    using a4 b4 two by fastforce
  have g4: "\<exists>i < length ?ns. ?nsm ! i \<noteq> None"
    by (rule exI [of _ 0]) simp
  from Longest_keeps_first_longest [of ?nsm ?ns ?nsp ?p, OF _ _ g3 g4]
  obtain v where v: "v < length ?ns"
    "Longest ?ns ?p = Inr (?nsm ! v, Keep (child_of ?p (?nsp ! v)))"
    "\<forall>i < v. ?nsm ! i = None \<or> Length (?nsm ! i) < Length (?nsm ! v)"
    by auto
  have "v = 0"
  proof (rule ccontr)
    assume "v \<noteq> 0"
    with two [OF v(1)] have "v = 1" by simp
    with v(3) [rule_format, of 0] show False by (simp add: Length_def)
  qed
  with v(2) k4 have tie: "Longest ?ns ?p = Inr (Some ?a4, New [0x65, 0x66, 0x67, 0x68])"
    by simp
  from one tie show ?thesis by simp
qed

text \<open>
  C8. \<open>selectLongest\<close> never returns \<open>-1\<close>, and on a non-empty list of nil
  matches it returns the last index. So when \<open>Longest\<close> has alternatives
  and each of them, run on a fork of \<open>p\<close>, returns no-match having moved
  nothing but its fork, \<open>Longest\<close> returns no-match and keeps the fork of
  the last alternative: the \<open>Input\<close> after the call stands where that
  fork stopped reading, not where \<open>p\<close> stood.
\<close>

theorem Longest_all_fail_keeps_last:
  assumes "ms \<noteq> []" and "length msp = length ms"
    and "\<forall>i < length ms. (ms ! i) (MayFail p) = Inr (None, child_of p (msp ! i))"
  shows "selectLongest xs \<noteq> - 1 \<and>
         selectLongest (replicate (length ms) None) = int (length ms) - 1 \<and>
         Longest ms p = Inr (None, Keep (child_of p (last msp))) \<and>
         rest (Keep (child_of p (last msp))) = drop (r_n (last msp)) (buf_data (in_buf p))"
proof -
  let ?msm = "replicate (length ms) (None :: match option)"
  have nn: "selectLongest xs \<noteq> - 1"
    using selectLongest_nonneg [of xs] by simp
  have run: "Longest_loop ms p [] [] = Inr (?msm, msp, p)"
    using Longest_loop_run [of ?msm ms msp p "[]" "[]"] assms(2,3) by simp
  have sel: "selectLongest ?msm = int (length ms) - 1"
    using selectLongest_all_None [of ?msm] assms(1) by simp
  have l: "msp ! (length ms - 1) = last msp"
    using assms(1,2) by (metis last_conv_nth length_0_conv)
  have n: "nat (int (length ms) - 1) = length ms - 1" by simp
  have "Longest ms p = Inr (None, Keep (child_of p (last msp)))"
    using run sel assms(1) l by (simp add: Longest_def n)
  then show ?thesis
    using sel nn by (simp add: rest_Keep) (simp add: rest_def child_of_def)
qed

text \<open>
  On \<open>"abcdefgh"\<close> from a root \<open>Input\<close>, with the single alternative
  \<open>OneByte('x')\<close>: the alternative reads \<open>"a"\<close> on its fork and fails,
  \<open>Longest\<close> returns no-match, and the \<open>Input\<close> is left in front of
  \<open>"bcdefgh"\<close>.
\<close>

theorem Longest_all_fail_keeps_last_witness:
  "MatchX (MayFail (New abcdefgh)) = Inr (None, child_of (New abcdefgh) \<lparr>r_n = 1\<rparr>) \<and>
   selectLongest [None] = 0 \<and>
   Longest [MatchX] (New abcdefgh) = Inr (None, New (tl abcdefgh)) \<and>
   rest (New (tl abcdefgh)) = tl abcdefgh \<and> rest (New abcdefgh) = abcdefgh"
proof -
  have x: "MatchX (MayFail (New abcdefgh)) = Inr (None, child_of (New abcdefgh) \<lparr>r_n = 1\<rparr>)"
    by (simp add: MatchX_def bytes_defs ev_defs)
  have k: "Keep (child_of (New abcdefgh) \<lparr>r_n = 1\<rparr>) = New (tl abcdefgh)"
    by (simp add: ev_defs)
  have r: "rest (New (tl abcdefgh)) = tl abcdefgh \<and> rest (New abcdefgh) = abcdefgh"
    by (simp add: rest_def new_defs)
  from Longest_all_fail_keeps_last [of "[MatchX]" "[\<lparr>r_n = 1\<rparr>]" "New abcdefgh" "[]"] x k
  have "selectLongest [None] = 0 \<and> Longest [MatchX] (New abcdefgh) = Inr (None, New (tl abcdefgh))"
    by simp
  with x r show ?thesis by simp
qed

end
